theory Spec2Isabelle
  imports Main
begin

section \<open>JavaScript values\<close>

text \<open>
  The values that reach the event mixin as callbacks and contexts. Objects and functions
  are references: two of them are the same value exactly when they are the same
  reference. Numbers are restricted to the integers, with \<open>JNaN\<close> apart.
\<close>

datatype js_value =
    JUndefined
  | JNull
  | JBool bool
  | JNum int
  | JNaN
  | JStr string
  | JObj nat
  | JFun nat

text \<open>\<^verbatim>\<open>typeof v === "function"\<close>\<close>

fun is_function :: "js_value \<Rightarrow> bool" where
  "is_function (JFun _) = True"
| "is_function _ = False"

text \<open>The truth value of a value as the operand of \<^verbatim>\<open>||\<close>.\<close>

fun truthy :: "js_value \<Rightarrow> bool" where
  "truthy JUndefined = False"
| "truthy JNull = False"
| "truthy (JBool b) = b"
| "truthy (JNum n) = (n \<noteq> 0)"
| "truthy JNaN = False"
| "truthy (JStr s) = (s \<noteq> [])"
| "truthy (JObj _) = True"
| "truthy (JFun _) = True"

text \<open>\<^verbatim>\<open>a || b\<close>\<close>

definition js_or :: "js_value \<Rightarrow> js_value \<Rightarrow> js_value" where
  "js_or a b = (if truthy a then a else b)"

text \<open>\<^verbatim>\<open>a === b\<close>: equality of primitives, identity of references, never of \<open>NaN\<close>.\<close>

definition strict_eq :: "js_value \<Rightarrow> js_value \<Rightarrow> bool" where
  "strict_eq a b = (a \<noteq> JNaN \<and> a = b)"

datatype js_error = TypeError | ReferenceError | JsError string

section \<open>The event mixin (src/event/event.js)\<close>

text \<open>
  A subscription is the object literal \<^verbatim>\<open>{"callback": callback, "context": context}\<close>;
  the field \<open>ctx\<close> is the source's \<^verbatim>\<open>context\<close>.
\<close>

record subscription =
  callback :: js_value
  ctx :: js_value

text \<open>
  What a property of \<^verbatim>\<open>this.events\<close> holds: an array of subscriptions, or a value that is
  not an array. Of such a value the methods read the \<^verbatim>\<open>length\<close> only, which is a number
  for a function and \<^verbatim>\<open>undefined\<close> (\<open>None\<close>) for an object without one; it has no \<^verbatim>\<open>push\<close>, no
  \<^verbatim>\<open>splice\<close> and no indexed elements.
\<close>

datatype js_property = Arr "subscription list" | NotArr "nat option"

text \<open>
  \<^verbatim>\<open>this.events\<close> is a plain object used as a dictionary from event names to arrays: the
  field \<open>events\<close> is its own properties.
\<close>

record emitter =
  events :: "string \<rightharpoonup> js_property"

text \<open>
  A plain object inherits from \<^verbatim>\<open>Object.prototype\<close>. These are its members, each a
  function given by its \<^verbatim>\<open>length\<close>, but for \<^verbatim>\<open>__proto__\<close>, an accessor that reads as the
  prototype object itself.
\<close>

definition Object_prototype :: "string \<rightharpoonup> nat option" where
  "Object_prototype =
     [''constructor'' \<mapsto> Some 1,
      ''toString'' \<mapsto> Some 0,
      ''toLocaleString'' \<mapsto> Some 0,
      ''valueOf'' \<mapsto> Some 0,
      ''hasOwnProperty'' \<mapsto> Some 1,
      ''isPrototypeOf'' \<mapsto> Some 1,
      ''propertyIsEnumerable'' \<mapsto> Some 1,
      ''__defineGetter__'' \<mapsto> Some 2,
      ''__defineSetter__'' \<mapsto> Some 2,
      ''__lookupGetter__'' \<mapsto> Some 1,
      ''__lookupSetter__'' \<mapsto> Some 1,
      ''__proto__'' \<mapsto> None]"

text \<open>
  \<^verbatim>\<open>this.events[k]\<close>: the own property, else the inherited one, else \<^verbatim>\<open>undefined\<close> (\<open>None\<close>).
\<close>

definition get_property :: "emitter \<Rightarrow> string \<Rightarrow> js_property option" where
  "get_property self k =
     (case events self k of
        Some p \<Rightarrow> Some p
      | None \<Rightarrow> map_option NotArr (Object_prototype k))"

text \<open>The constructor passed to \<^verbatim>\<open>Modelo.define\<close>: \<^verbatim>\<open>this.events = {}\<close>.\<close>

definition EventMixin :: emitter where
  "EventMixin = \<lparr>events = Map.empty\<rparr>"

text \<open>
  The \<^verbatim>\<open>event\<close> argument is a string or is omitted (\<open>None\<close>); as a property key an
  omitted argument is the name \<^verbatim>\<open>"undefined"\<close>.
\<close>

definition prop_key :: "string option \<Rightarrow> string" where
  "prop_key event = (case event of None \<Rightarrow> ''undefined'' | Some name \<Rightarrow> name)"

text \<open>The subscriptions registered under a name: those of its own array, if it has one.\<close>

definition subscribers :: "emitter \<Rightarrow> string \<Rightarrow> subscription list" where
  "subscribers self k = (case events self k of Some (Arr xs) \<Rightarrow> xs | _ \<Rightarrow> [])"

text \<open>
  The statement \<^verbatim>\<open>this.events[event] = this.events[event] || []\<close> of \<open>on\<close> and \<open>trigger\<close>,
  with the value that \<^verbatim>\<open>this.events[event]\<close> has after it. Arrays, functions and objects are
  truthy, so only \<^verbatim>\<open>undefined\<close> gives way to the new array. An inherited value becomes an
  own property, but for \<^verbatim>\<open>__proto__\<close>, whose setter is handed the prototype that the object
  has.
\<close>

definition ensure_entry :: "emitter \<Rightarrow> string \<Rightarrow> js_property \<times> emitter" where
  "ensure_entry self k =
     (case get_property self k of
        None \<Rightarrow> (Arr [], self\<lparr>events := (events self)(k \<mapsto> Arr [])\<rparr>)
      | Some p \<Rightarrow>
          (p, if k = ''__proto__'' \<and> events self k = None then self
              else self\<lparr>events := (events self)(k \<mapsto> p)\<rparr>))"

subsection \<open>on\<close>

text \<open>
  Every method returns \<^verbatim>\<open>this\<close>: a normal return is \<open>Inr\<close> of the emitter as the call
  left it. A thrown exception is \<open>Inl\<close> of the error and of the emitter as it is when the
  exception leaves the method. \<^verbatim>\<open>push\<close> of a value that is not an array is \<^verbatim>\<open>undefined\<close>, and
  calling it is a TypeError.
\<close>

definition on :: "emitter \<Rightarrow> string option \<Rightarrow> js_value \<Rightarrow> js_value \<Rightarrow> js_error \<times> emitter + emitter" where
  "on self event cb context0 =
     (if \<not> is_function cb then Inr self
      else
        let context1 = js_or context0 JNull;
            k = prop_key event;
            (entry, self1) = ensure_entry self k
        in case entry of
             Arr xs \<Rightarrow>
               Inr (self1\<lparr>events := (events self1)(k \<mapsto> Arr (xs @ [\<lparr>callback = cb, ctx = context1\<rparr>]))\<rparr>)
           | NotArr len \<Rightarrow> Inl (TypeError, self1))"

subsection \<open>off\<close>

text \<open>
  \<^verbatim>\<open>arr.splice(start, count)\<close> for \<open>0 \<le> start\<close>: the array without \<open>count\<close> elements
  from index \<open>start\<close>.
\<close>

definition splice_js :: "nat \<Rightarrow> nat \<Rightarrow> 'a list \<Rightarrow> 'a list" where
  "splice_js start count xs = take start xs @ drop (start + count) xs"

text \<open>
  The removal loop \<^verbatim>\<open>for (x = length - 1; x >= 0; x = x - 1)\<close> on an array. The first
  argument is \<open>x + 1\<close>, so that \<open>0\<close> is the loop's exit. Reading \<^verbatim>\<open>this.events[event][x]\<close>
  beyond the end of the array gives \<^verbatim>\<open>undefined\<close>, whose \<^verbatim>\<open>.callback\<close> throws a TypeError,
  the array being what the loop has made of it.
\<close>

primrec off_loop ::
  "(subscription \<Rightarrow> bool) \<Rightarrow> nat \<Rightarrow> subscription list \<Rightarrow> js_error \<times> subscription list + subscription list" where
  "off_loop matches 0 xs = Inr xs"
| "off_loop matches (Suc x) xs =
     (if x < length xs then
        (if matches (xs ! x) then off_loop matches x (splice_js x 1 xs)
         else off_loop matches x xs)
      else Inl (TypeError, xs))"

text \<open>
  The same loop on a value that is not an array. With a \<^verbatim>\<open>length\<close> of \<open>0\<close>, or none
  (\<^verbatim>\<open>undefined - 1 >= 0\<close> is false), the body never runs; otherwise the first element read
  is \<^verbatim>\<open>undefined\<close> and its \<^verbatim>\<open>.callback\<close> throws.
\<close>

definition off_loop_not_array :: "emitter \<Rightarrow> nat option \<Rightarrow> js_error \<times> emitter + emitter" where
  "off_loop_not_array self len =
     (case len of
        Some (Suc n) \<Rightarrow> Inl (TypeError, self)
      | _ \<Rightarrow> Inr self)"

definition off_matching ::
  "emitter \<Rightarrow> string \<Rightarrow> (subscription \<Rightarrow> bool) \<Rightarrow> js_error \<times> emitter + emitter" where
  "off_matching self k matches =
     (case get_property self k of
        None \<Rightarrow> Inl (TypeError, self)
      | Some (NotArr len) \<Rightarrow> off_loop_not_array self len
      | Some (Arr xs) \<Rightarrow>
          (case off_loop matches (length xs) xs of
             Inl (err, ys) \<Rightarrow> Inl (err, self\<lparr>events := (events self)(k \<mapsto> Arr ys)\<rparr>)
           | Inr ys \<Rightarrow> Inr (self\<lparr>events := (events self)(k \<mapsto> Arr ys)\<rparr>)))"

text \<open>
  The four cases of \<open>off\<close>. In the second, \<^verbatim>\<open>.splice\<close> is read of \<^verbatim>\<open>undefined\<close>, or is
  \<^verbatim>\<open>undefined\<close> and called, where the name holds no array: a TypeError either way. In the
  third and the fourth, \<open>off_matching\<close> is the loop, which reads \<^verbatim>\<open>.length\<close> first.
\<close>

definition off :: "emitter \<Rightarrow> string option \<Rightarrow> js_value \<Rightarrow> js_value \<Rightarrow> js_error \<times> emitter + emitter" where
  "off self event cb context0 =
     (if strict_eq cb JUndefined \<and> strict_eq context0 JUndefined \<and> event = None then
        Inr (self\<lparr>events := Map.empty\<rparr>)
      else if strict_eq cb JUndefined \<and> strict_eq context0 JUndefined then
        (case get_property self (prop_key event) of
           Some (Arr xs) \<Rightarrow>
             Inr (self\<lparr>events := (events self)(prop_key event \<mapsto> Arr (splice_js 0 (length xs) xs))\<rparr>)
         | _ \<Rightarrow> Inl (TypeError, self))
      else if strict_eq context0 JUndefined then
        off_matching self (prop_key event) (\<lambda>s. strict_eq (callback s) cb)
      else
        off_matching self (prop_key event)
          (\<lambda>s. strict_eq (callback s) cb \<and> strict_eq (ctx s) context0))"

subsection \<open>trigger\<close>

text \<open>
  Modelled from the spec: \<^verbatim>\<open>defer.bind\<close> of the module \<^verbatim>\<open>deferjs\<close> that event.js requires is
  not among the sources, and what \<^verbatim>\<open>defer\<close> does with a task is the work of a host primitive
  (see \<open>defer_select\<close> below). \<^verbatim>\<open>defer.bind(callback, ctx)\<close> is the callback bound to its
  context, and \<^verbatim>\<open>defer(task)\<close>, here \<open>deferjs\<close>, hands the task to the scheduler, which runs
  nothing before the caller returns: the scheduler is the queue of the tasks submitted so
  far, oldest first.
\<close>

datatype task = Bound js_value js_value

definition defer_bind :: "js_value \<Rightarrow> js_value \<Rightarrow> task" where
  "defer_bind cb c = Bound cb c"

definition deferjs :: "task \<Rightarrow> task list \<Rightarrow> task list" where
  "deferjs t queue = queue @ [t]"

text \<open>The loop \<^verbatim>\<open>for (x = 0; x < this.events[event].length; x = x + 1)\<close> on an array.\<close>

function trigger_loop :: "nat \<Rightarrow> subscription list \<Rightarrow> task list \<Rightarrow> task list" where
  "trigger_loop x xs queue =
     (if x < length xs then
        (if is_function (callback (xs ! x))
         then trigger_loop (x + 1) xs (deferjs (defer_bind (callback (xs ! x)) (ctx (xs ! x))) queue)
         else trigger_loop (x + 1) xs queue)
      else queue)"
  by pat_completeness auto
termination
  by (relation "measure (\<lambda>(x, xs, queue). length xs - x)") auto

declare trigger_loop.simps [simp del]

text \<open>
  On a value that is not an array the loop runs only if the \<^verbatim>\<open>length\<close> is a positive
  number, and then its first read, \<^verbatim>\<open>this.events[event][0].callback\<close>, throws a TypeError
  with nothing submitted.
\<close>

definition trigger ::
  "emitter \<Rightarrow> task list \<Rightarrow> string option \<Rightarrow> js_error \<times> emitter \<times> task list + emitter \<times> task list" where
  "trigger self queue event =
     (let k = prop_key event;
          (entry, self1) = ensure_entry self k
      in case entry of
           Arr xs \<Rightarrow> Inr (self1, trigger_loop 0 xs queue)
         | NotArr len \<Rightarrow>
             (case len of
                Some (Suc n) \<Rightarrow> Inl (TypeError, self1, queue)
              | _ \<Rightarrow> Inr (self1, queue)))"

text \<open>The emitter and the scheduler's queue as a call of \<open>trigger\<close> leaves them.\<close>

definition emitter_after :: "js_error \<times> emitter \<times> task list + emitter \<times> task list \<Rightarrow> emitter" where
  "emitter_after r = (case r of Inl (err, self', queue') \<Rightarrow> self' | Inr (self', queue') \<Rightarrow> self')"

definition queue_after :: "js_error \<times> emitter \<times> task list + emitter \<times> task list \<Rightarrow> task list" where
  "queue_after r = (case r of Inl (err, self', queue') \<Rightarrow> queue' | Inr (self', queue') \<Rightarrow> queue')"

subsection \<open>The registries the methods produce\<close>

text \<open>
  The emitters that exist: a new one, and whatever a call of \<open>on\<close>, \<open>off\<close> or \<open>trigger\<close>
  leaves of one, whether the call returns or throws.
\<close>

inductive reachable :: "emitter \<Rightarrow> bool" where
  reachable_new: "reachable EventMixin"
| reachable_on: "reachable self \<Longrightarrow> on self event cb c = Inr self' \<Longrightarrow> reachable self'"
| reachable_on_throws:
    "reachable self \<Longrightarrow> on self event cb c = Inl (err, self') \<Longrightarrow> reachable self'"
| reachable_off: "reachable self \<Longrightarrow> off self event cb c = Inr self' \<Longrightarrow> reachable self'"
| reachable_off_throws:
    "reachable self \<Longrightarrow> off self event cb c = Inl (err, self') \<Longrightarrow> reachable self'"
| reachable_trigger:
    "reachable self \<Longrightarrow> emitter_after (trigger self queue event) = self' \<Longrightarrow> reachable self'"

text \<open>What \<open>on\<close> stores: a function, with a context that is \<^verbatim>\<open>null\<close> or truthy.\<close>

definition stored_ok :: "subscription \<Rightarrow> bool" where
  "stored_ok s = (is_function (callback s) \<and> (ctx s = JNull \<or> truthy (ctx s)))"

definition registry_ok :: "emitter \<Rightarrow> bool" where
  "registry_ok self = (\<forall>k xs. events self k = Some (Arr xs) \<longrightarrow> list_all stored_ok xs)"

text \<open>
  A name under which \<open>on\<close> can register: it holds an array, or reads \<^verbatim>\<open>undefined\<close>.
\<close>

definition subscribable :: "emitter \<Rightarrow> string \<Rightarrow> bool" where
  "subscribable self k = (case get_property self k of Some (NotArr len) \<Rightarrow> False | _ \<Rightarrow> True)"

section \<open>The deferred scheduler (src/unnamed/part_000)\<close>

text \<open>
  What the module reads of its host: whether \<^verbatim>\<open>process\<close> and \<^verbatim>\<open>window\<close> are defined, the
  truth values of the properties it tests or calls, and whether the global \<^verbatim>\<open>setTimeout\<close>,
  which it calls without a test, is defined.
\<close>

record host =
  process_defined :: bool
  process_nextTick :: bool
  window_defined :: bool
  window_postMessage :: bool
  window_addEventListener :: bool
  window_attachEvent :: bool
  setTimeout_defined :: bool

text \<open>
  The function the module exports: \<^verbatim>\<open>process.nextTick\<close> itself, the function that queues
  the task and posts the message \<^verbatim>\<open>"nextTick"\<close> to the window, or the wrapper of
  \<^verbatim>\<open>setTimeout(fn, 0)\<close>.
\<close>

datatype scheduler = NextTick | PostMessage | Timeout

text \<open>
  The immediately invoked function that computes \<^verbatim>\<open>defer\<close> when the module is loaded.
  With \<^verbatim>\<open>postMessage\<close> it registers its handler first, by \<^verbatim>\<open>addEventListener\<close> or else by
  \<^verbatim>\<open>attachEvent\<close>, and calling the latter where it is missing is a TypeError. Without
  \<^verbatim>\<open>postMessage\<close> a window is enough for the wrapper of \<^verbatim>\<open>setTimeout\<close>.
\<close>

definition defer_select :: "host \<Rightarrow> js_error + scheduler" where
  "defer_select h =
     (if process_defined h \<and> process_nextTick h then Inr NextTick
      else if window_defined h then
        (if window_postMessage h then
           (if window_addEventListener h then Inr PostMessage
            else if window_attachEvent h then Inr PostMessage
            else Inl TypeError)
         else Inr Timeout)
      else Inl (JsError ''Unsupported environment for async events.''))"

text \<open>
  The host's event loop, as far as the exported functions touch it: the callbacks given
  to \<^verbatim>\<open>process.nextTick\<close> and to \<^verbatim>\<open>setTimeout\<close> and the messages posted to the window, which
  the host keeps for a later turn, the module's own \<^verbatim>\<open>queue\<close>, and the tasks that have
  been called, in order.
\<close>

record event_loop =
  ticks :: "task list"
  posted :: nat
  pending :: "task list"
  timers :: "task list"
  called :: "task list"

text \<open>
  A call \<^verbatim>\<open>defer(fn)\<close> of the exported function. \<^verbatim>\<open>process.nextTick\<close>, \<^verbatim>\<open>window.postMessage\<close>
  and \<^verbatim>\<open>setTimeout\<close> are the host's: each keeps what it is given and returns. The second
  function is \<^verbatim>\<open>queue.push(fn); window.postMessage(message, '*')\<close>, with \<open>pending\<close> for its
  \<^verbatim>\<open>queue\<close>; the third reads the global \<^verbatim>\<open>setTimeout\<close>, a ReferenceError where there is none.
\<close>

definition defer_call :: "host \<Rightarrow> scheduler \<Rightarrow> task \<Rightarrow> event_loop \<Rightarrow> js_error \<times> event_loop + event_loop" where
  "defer_call h s fn loop =
     (case s of
        NextTick \<Rightarrow> Inr (loop\<lparr>ticks := ticks loop @ [fn]\<rparr>)
      | PostMessage \<Rightarrow> Inr (loop\<lparr>pending := pending loop @ [fn], posted := posted loop + 1\<rparr>)
      | Timeout \<Rightarrow>
          (if setTimeout_defined h then Inr (loop\<lparr>timers := timers loop @ [fn]\<rparr>)
           else Inl (ReferenceError, loop)))"

text \<open>
  The module's \<^verbatim>\<open>handle\<close>, which the host calls with a message event on a later turn;
  \<open>ours\<close> is \<^verbatim>\<open>event.source === window && event.data === message\<close>. It takes the oldest
  task off the queue and calls it.
\<close>

definition handle :: "bool \<Rightarrow> event_loop \<Rightarrow> event_loop" where
  "handle ours loop =
     (if ours then
        (case pending loop of
           [] \<Rightarrow> loop
         | fn # rest \<Rightarrow> loop\<lparr>pending := rest, called := called loop @ [fn]\<rparr>)
      else loop)"

text \<open>The event loop as a call of the exported function leaves it.\<close>

definition loop_after :: "js_error \<times> event_loop + event_loop \<Rightarrow> event_loop" where
  "loop_after r = (case r of Inl (err, loop') \<Rightarrow> loop' | Inr loop' \<Rightarrow> loop')"

text \<open>
  A host that offers no asynchronous mechanism: no \<^verbatim>\<open>process.nextTick\<close>, and no window with
  \<^verbatim>\<open>postMessage\<close> or \<^verbatim>\<open>setTimeout\<close>.
\<close>

definition no_async_mechanism :: "host \<Rightarrow> bool" where
  "no_async_mechanism h =
     (\<not> (process_defined h \<and> process_nextTick h)
      \<and> \<not> (window_defined h \<and> (window_postMessage h \<or> setTimeout_defined h)))"

section \<open>The loops\<close>

text \<open>
  The removal loop, having come down to index \<open>n\<close>, has filtered the part of the array from
  \<open>n\<close> on and never reads beyond the end: deleting at \<open>x\<close> moves only elements the loop
  has passed.
\<close>

lemma off_loop_prefix:
  "n \<le> length xs \<Longrightarrow>
     off_loop matches n xs = Inr (filter (\<lambda>s. \<not> matches s) (take n xs) @ drop n xs)"
proof (induction n arbitrary: xs)
  case 0
  show ?case by simp
next
  case (Suc x)
  then have lt: "x < length xs" by simp
  have tk: "take (Suc x) xs = take x xs @ [xs ! x]"
    using lt by (simp add: take_Suc_conv_app_nth)
  show ?case
  proof (cases "matches (xs ! x)")
    case True
    have len: "x \<le> length (splice_js x 1 xs)"
      using lt by (simp add: splice_js_def)
    have "off_loop matches x (splice_js x 1 xs) =
            Inr (filter (\<lambda>s. \<not> matches s) (take x (splice_js x 1 xs)) @ drop x (splice_js x 1 xs))"
      using Suc.IH [OF len] .
    moreover have "take x (splice_js x 1 xs) = take x xs"
      using lt by (simp add: splice_js_def)
    moreover have "drop x (splice_js x 1 xs) = drop (Suc x) xs"
      using lt by (simp add: splice_js_def)
    ultimately show ?thesis
      using lt True tk by simp
  next
    case False
    have "off_loop matches x xs = Inr (filter (\<lambda>s. \<not> matches s) (take x xs) @ drop x xs)"
      using Suc.IH [of xs] lt by simp
    moreover have "drop x xs = xs ! x # drop (Suc x) xs"
      using lt by (simp add: Cons_nth_drop_Suc)
    ultimately show ?thesis
      using lt False tk by simp
  qed
qed

lemma off_loop_filter:
  "off_loop matches (length xs) xs = Inr (filter (\<lambda>s. \<not> matches s) xs)"
  using off_loop_prefix [of "length xs" xs matches] by simp

text \<open>The scheduling loop submits the invocable part of the array from index \<open>x\<close> on, in order.\<close>

lemma trigger_loop_suffix:
  "trigger_loop x xs queue =
     queue @ map (\<lambda>s. defer_bind (callback s) (ctx s))
               (filter (\<lambda>s. is_function (callback s)) (drop x xs))"
proof (induction x xs queue rule: trigger_loop.induct)
  case (1 x xs queue)
  show ?case
  proof (cases "x < length xs")
    case False
    then show ?thesis by (subst trigger_loop.simps) simp
  next
    case lt: True
    have dr: "drop x xs = xs ! x # drop (Suc x) xs"
      using lt by (simp add: Cons_nth_drop_Suc)
    show ?thesis
    proof (cases "is_function (callback (xs ! x))")
      case True
      then show ?thesis
        using lt "1.IH"(1) dr by (subst trigger_loop.simps) (simp add: deferjs_def)
    next
      case False
      then show ?thesis
        using lt "1.IH"(2) dr by (subst trigger_loop.simps) simp
    qed
  qed
qed

section \<open>Reading and creating an entry\<close>

lemma strict_eq_undefined [simp]: "strict_eq v JUndefined = (v = JUndefined)"
  by (auto simp: strict_eq_def)

lemma get_property_own: "events self k = Some p \<Longrightarrow> get_property self k = Some p"
  by (simp add: get_property_def)

lemma get_property_undefined:
  "get_property self k = None \<longleftrightarrow> events self k = None \<and> Object_prototype k = None"
  by (auto simp: get_property_def split: option.splits)

lemma get_property_array:
  "get_property self k = Some (Arr xs) \<longleftrightarrow> events self k = Some (Arr xs)"
  by (auto simp: get_property_def split: option.splits)

lemma ensure_entry_array:
  "events self k = Some (Arr xs) \<Longrightarrow> ensure_entry self k = (Arr xs, self)"
  by (simp add: ensure_entry_def get_property_def map_upd_triv)

lemma ensure_entry_undefined:
  "get_property self k = None \<Longrightarrow>
     ensure_entry self k = (Arr [], self\<lparr>events := (events self)(k \<mapsto> Arr [])\<rparr>)"
  by (simp add: ensure_entry_def)

lemma ensure_entry_not_array:
  "get_property self k = Some (NotArr len) \<Longrightarrow>
     ensure_entry self k =
       (NotArr len,
        if k = ''__proto__'' \<and> events self k = None then self
        else self\<lparr>events := (events self)(k \<mapsto> NotArr len)\<rparr>)"
  by (simp add: ensure_entry_def)

lemma subscribable_cases:
  "subscribable self k \<longleftrightarrow>
     get_property self k = None \<or> (\<exists>xs. events self k = Some (Arr xs))"
  by (auto simp: subscribable_def get_property_def split: option.splits js_property.splits)

subsection \<open>The methods as equations\<close>

lemma on_array:
  assumes "is_function cb" and "events self (prop_key event) = Some (Arr xs)"
  shows "on self event cb c =
           Inr (self\<lparr>events := (events self)(prop_key event \<mapsto>
                  Arr (xs @ [\<lparr>callback = cb, ctx = js_or c JNull\<rparr>]))\<rparr>)"
  using assms by (simp add: on_def Let_def ensure_entry_array)

lemma on_undefined:
  assumes "is_function cb" and "get_property self (prop_key event) = None"
  shows "on self event cb c =
           Inr (self\<lparr>events := (events self)(prop_key event \<mapsto>
                  Arr [\<lparr>callback = cb, ctx = js_or c JNull\<rparr>])\<rparr>)"
  using assms by (simp add: on_def Let_def ensure_entry_undefined)

lemma on_subscribable:
  assumes "is_function cb" and "subscribable self (prop_key event)"
  shows "on self event cb c =
           Inr (self\<lparr>events := (events self)(prop_key event \<mapsto>
                  Arr (subscribers self (prop_key event) @ [\<lparr>callback = cb, ctx = js_or c JNull\<rparr>]))\<rparr>)"
proof -
  from assms(2) consider "get_property self (prop_key event) = None"
    | xs where "events self (prop_key event) = Some (Arr xs)"
    by (auto simp: subscribable_cases)
  then show ?thesis
  proof cases
    case 1
    then have "subscribers self (prop_key event) = []"
      by (simp add: subscribers_def get_property_undefined)
    then show ?thesis using on_undefined [OF assms(1) 1] by simp
  next
    case 2
    then have "subscribers self (prop_key event) = xs"
      by (simp add: subscribers_def)
    then show ?thesis using on_array [OF assms(1) 2] by simp
  qed
qed

lemma on_not_array:
  assumes "is_function cb" and "get_property self (prop_key event) = Some (NotArr len)"
  shows "on self event cb c =
           Inl (TypeError,
                if prop_key event = ''__proto__'' \<and> events self (prop_key event) = None then self
                else self\<lparr>events := (events self)(prop_key event \<mapsto> NotArr len)\<rparr>)"
  using assms by (simp add: on_def Let_def ensure_entry_not_array)

lemma on_returns_subscribable:
  assumes "is_function cb" and "on self event cb c = Inr self1"
  shows "subscribable self (prop_key event)"
proof (rule ccontr)
  assume "\<not> subscribable self (prop_key event)"
  then obtain len where "get_property self (prop_key event) = Some (NotArr len)"
    by (auto simp: subscribable_def split: option.splits js_property.splits)
  from on_not_array [OF assms(1) this] assms(2) show False by simp
qed

lemma trigger_array:
  assumes "events self (prop_key event) = Some (Arr xs)"
  shows "trigger self queue event =
           Inr (self, queue @ map (\<lambda>s. defer_bind (callback s) (ctx s))
                               (filter (\<lambda>s. is_function (callback s)) xs))"
  using assms by (simp add: trigger_def Let_def ensure_entry_array trigger_loop_suffix)

lemma trigger_undefined:
  assumes "get_property self (prop_key event) = None"
  shows "trigger self queue event =
           Inr (self\<lparr>events := (events self)(prop_key event \<mapsto> Arr [])\<rparr>, queue)"
  using assms by (simp add: trigger_def Let_def ensure_entry_undefined trigger_loop_suffix)

lemma trigger_not_array:
  assumes "get_property self (prop_key event) = Some (NotArr len)"
  shows "trigger self queue event =
           (case len of
              Some (Suc n) \<Rightarrow> Inl (TypeError, snd (ensure_entry self (prop_key event)), queue)
            | _ \<Rightarrow> Inr (snd (ensure_entry self (prop_key event)), queue))"
proof -
  obtain self1 where "ensure_entry self (prop_key event) = (NotArr len, self1)"
    using ensure_entry_not_array [OF assms] by blast
  then show ?thesis
    by (simp add: trigger_def Let_def split: option.split nat.split)
qed

lemma off_all: "off self None JUndefined JUndefined = Inr (self\<lparr>events := Map.empty\<rparr>)"
  by (simp add: off_def)

lemma off_missing:
  assumes "get_property self (prop_key event) = None"
    and "\<not> (cb = JUndefined \<and> c = JUndefined \<and> event = None)"
  shows "off self event cb c = Inl (TypeError, self)"
  using assms by (auto simp: off_def off_matching_def)

lemma off_event:
  assumes "events self (prop_key event) = Some (Arr xs)" and "event \<noteq> None"
  shows "off self event JUndefined JUndefined =
           Inr (self\<lparr>events := (events self)(prop_key event \<mapsto> Arr [])\<rparr>)"
  using assms by (cases event) (simp_all add: off_def splice_js_def get_property_own)

lemma off_matching_array:
  assumes "events self k = Some (Arr xs)"
  shows "off_matching self k matches =
           Inr (self\<lparr>events := (events self)(k \<mapsto> Arr (filter (\<lambda>s. \<not> matches s) xs))\<rparr>)"
  using assms by (simp add: off_matching_def get_property_own off_loop_filter)

lemma off_callback:
  assumes "events self (prop_key event) = Some (Arr xs)" and "cb \<noteq> JUndefined"
  shows "off self event cb JUndefined =
           Inr (self\<lparr>events := (events self)(prop_key event \<mapsto>
                  Arr (filter (\<lambda>s. \<not> strict_eq (callback s) cb) xs))\<rparr>)"
  using assms by (simp add: off_def off_matching_array)

lemma off_callback_context:
  assumes "events self (prop_key event) = Some (Arr xs)" and "c \<noteq> JUndefined"
  shows "off self event cb c =
           Inr (self\<lparr>events := (events self)(prop_key event \<mapsto>
                  Arr (filter (\<lambda>s. \<not> (strict_eq (callback s) cb \<and> strict_eq (ctx s) c)) xs))\<rparr>)"
  using assms by (simp add: off_def off_matching_array)

lemma off_not_array:
  assumes "get_property self (prop_key event) = Some (NotArr len)"
    and "\<not> (cb = JUndefined \<and> c = JUndefined)"
  shows "off self event cb c = off_loop_not_array self len"
  using assms by (auto simp: off_def off_matching_def)

lemma off_event_not_array:
  assumes "get_property self (prop_key event) = Some (NotArr len)" and "event \<noteq> None"
  shows "off self event JUndefined JUndefined = Inl (TypeError, self)"
  using assms by (cases event) (simp_all add: off_def)

text \<open>
  Every returning call of \<open>off\<close> is the full reset, a filter of one event's array, or the
  loop that does not run on a name without an array; a second call with the same arguments
  finds nothing left to remove. A call that throws has changed nothing.
\<close>

lemma off_returns_cases:
  assumes "off self event cb c = Inr self'"
  shows "(event = None \<and> cb = JUndefined \<and> c = JUndefined \<and> self' = self\<lparr>events := Map.empty\<rparr>)
       \<or> (\<exists>xs. events self (prop_key event) = Some (Arr xs)
              \<and> self' = self\<lparr>events := (events self)(prop_key event \<mapsto>
                    Arr (filter (\<lambda>s. \<not> ((cb = JUndefined \<and> c = JUndefined) \<or>
                       (strict_eq (callback s) cb \<and> (c = JUndefined \<or> strict_eq (ctx s) c)))) xs))\<rparr>)
       \<or> (\<exists>len. get_property self (prop_key event) = Some (NotArr len)
              \<and> \<not> (cb = JUndefined \<and> c = JUndefined) \<and> self' = self)"
proof (cases "cb = JUndefined \<and> c = JUndefined \<and> event = None")
  case True
  then show ?thesis using assms by (simp add: off_def)
next
  case not_reset: False
  show ?thesis
  proof (cases "get_property self (prop_key event)")
    case None
    from off_missing [OF None not_reset] assms show ?thesis by simp
  next
    case (Some p)
    show ?thesis
    proof (cases p)
      case (NotArr len)
      with Some have na: "get_property self (prop_key event) = Some (NotArr len)" by simp
      show ?thesis
      proof (cases "cb = JUndefined \<and> c = JUndefined")
        case True
        with not_reset have "event \<noteq> None" by simp
        from off_event_not_array [OF na this] True assms show ?thesis by simp
      next
        case False
        from off_not_array [OF na False] assms have "self' = self"
          by (auto simp: off_loop_not_array_def split: option.splits nat.splits)
        with na False show ?thesis by blast
      qed
    next
      case (Arr xs)
      with Some have own: "events self (prop_key event) = Some (Arr xs)"
        by (simp add: get_property_array)
      show ?thesis
      proof (cases "c = JUndefined")
        case cu: True
        show ?thesis
        proof (cases "cb = JUndefined")
          case True
          with not_reset cu have "event \<noteq> None" by simp
          from off_event [OF own this] True cu assms own show ?thesis by simp
        next
          case False
          from off_callback [OF own False] cu False assms own show ?thesis by simp
        qed
      next
        case False
        from off_callback_context [OF own False, of cb] False assms own show ?thesis by simp
      qed
    qed
  qed
qed

lemma off_throws_unchanged:
  assumes "off self event cb c = Inl (err, self')"
  shows "err = TypeError \<and> self' = self"
proof (cases "cb = JUndefined \<and> c = JUndefined \<and> event = None")
  case True
  then show ?thesis using assms by (simp add: off_def)
next
  case not_reset: False
  show ?thesis
  proof (cases "get_property self (prop_key event)")
    case None
    from off_missing [OF None not_reset] assms show ?thesis by simp
  next
    case (Some p)
    show ?thesis
    proof (cases p)
      case (NotArr len)
      with Some have na: "get_property self (prop_key event) = Some (NotArr len)" by simp
      show ?thesis
      proof (cases "cb = JUndefined \<and> c = JUndefined")
        case True
        with not_reset have "event \<noteq> None" by simp
        from off_event_not_array [OF na this] True assms show ?thesis by simp
      next
        case False
        from off_not_array [OF na False] assms show ?thesis
          by (auto simp: off_loop_not_array_def split: option.splits nat.splits)
      qed
    next
      case (Arr xs)
      with Some have own: "events self (prop_key event) = Some (Arr xs)"
        by (simp add: get_property_array)
      show ?thesis
      proof (cases "c = JUndefined")
        case cu: True
        show ?thesis
        proof (cases "cb = JUndefined")
          case True
          with not_reset cu have "event \<noteq> None" by simp
          from off_event [OF own this] True cu assms show ?thesis by simp
        next
          case False
          from off_callback [OF own False] cu assms show ?thesis by simp
        qed
      next
        case False
        from off_callback_context [OF own False, of cb] assms show ?thesis by simp
      qed
    qed
  qed
qed

lemma off_twice_same:
  assumes "off self event cb c = Inr self'"
  shows "off self' event cb c = Inr self'"
  using off_returns_cases [OF assms]
proof (elim disjE conjE exE)
  assume "event = None" "cb = JUndefined" "c = JUndefined" "self' = self\<lparr>events := Map.empty\<rparr>"
  then show ?thesis by (simp add: off_def)
next
  fix len
  assume "self' = self"
  with assms show ?thesis by simp
next
  fix xs
  let ?P = "\<lambda>s. \<not> ((cb = JUndefined \<and> c = JUndefined) \<or>
                       (strict_eq (callback s) cb \<and> (c = JUndefined \<or> strict_eq (ctx s) c)))"
  assume some: "events self (prop_key event) = Some (Arr xs)"
    and eq: "self' = self\<lparr>events := (events self)(prop_key event \<mapsto> Arr (filter ?P xs))\<rparr>"
  have ev: "events self' (prop_key event) = Some (Arr (filter ?P xs))"
    using eq by simp
  have nn: "\<not> (cb = JUndefined \<and> c = JUndefined \<and> event = None)"
  proof
    assume "cb = JUndefined \<and> c = JUndefined \<and> event = None"
    then have "self' = self\<lparr>events := Map.empty\<rparr>"
      using assms by (simp add: off_def)
    then have "events self' (prop_key event) = None" by simp
    with ev show False by simp
  qed
  have r: "off self' event cb c =
             Inr (self'\<lparr>events := (events self')(prop_key event \<mapsto> Arr (filter ?P (filter ?P xs)))\<rparr>)"
  proof (cases "c = JUndefined")
    case cu: True
    show ?thesis
    proof (cases "cb = JUndefined")
      case True
      with nn cu have "event \<noteq> None" by simp
      from off_event [OF ev this] True cu show ?thesis by simp
    next
      case False
      from off_callback [OF ev False] cu False show ?thesis by simp
    qed
  next
    case False
    from off_callback_context [OF ev False, of cb] False show ?thesis by simp
  qed
  have "filter ?P (filter ?P xs) = filter ?P xs" by simp
  with r show ?thesis
    by (simp add: eq)
qed

section \<open>What the registry holds\<close>

text \<open>
  Every subscription in a registry that the methods produce was stored by \<open>on\<close>: its
  callback is a function, so \<open>trigger\<close> skips none of them.
\<close>

lemma registry_ok_new: "registry_ok EventMixin"
  by (simp add: registry_ok_def EventMixin_def)

lemma registry_ok_reset: "registry_ok (self\<lparr>events := Map.empty\<rparr>)"
  by (simp add: registry_ok_def)

lemma registry_ok_array:
  "registry_ok self \<Longrightarrow> list_all stored_ok xs \<Longrightarrow>
     registry_ok (self\<lparr>events := (events self)(k \<mapsto> Arr xs)\<rparr>)"
  by (simp add: registry_ok_def)

lemma registry_ok_not_array:
  "registry_ok self \<Longrightarrow> registry_ok (self\<lparr>events := (events self)(k \<mapsto> NotArr len)\<rparr>)"
  by (simp add: registry_ok_def)

lemma subscribers_ok:
  "registry_ok self \<Longrightarrow> list_all stored_ok (subscribers self k)"
  by (auto simp: registry_ok_def subscribers_def split: option.splits js_property.splits)

lemma registry_ok_ensure:
  assumes "registry_ok self"
  shows "registry_ok (snd (ensure_entry self k))"
proof (cases "get_property self k")
  case None
  then show ?thesis
    using assms by (simp add: ensure_entry_undefined registry_ok_array)
next
  case (Some p)
  show ?thesis
  proof (cases p)
    case (Arr xs)
    with Some have "events self k = Some (Arr xs)" by (simp add: get_property_array)
    then show ?thesis using assms by (simp add: ensure_entry_array)
  next
    case (NotArr len)
    with Some show ?thesis
      using assms by (simp add: ensure_entry_not_array registry_ok_not_array)
  qed
qed

lemma registry_ok_on:
  assumes "registry_ok self" and "on self event cb c = Inr self'"
  shows "registry_ok self'"
proof (cases "is_function cb")
  case False
  then show ?thesis using assms by (simp add: on_def)
next
  case True
  have new: "stored_ok \<lparr>callback = cb, ctx = js_or c JNull\<rparr>"
    using True by (simp add: stored_ok_def js_or_def)
  have "list_all stored_ok (subscribers self (prop_key event) @ [\<lparr>callback = cb, ctx = js_or c JNull\<rparr>])"
    using subscribers_ok [OF assms(1)] new by simp
  then show ?thesis
    using on_subscribable [OF True on_returns_subscribable [OF True assms(2)], of c] assms
    by (simp add: registry_ok_array)
qed

lemma registry_ok_on_throws:
  assumes "registry_ok self" and "on self event cb c = Inl (err, self')"
  shows "registry_ok self'"
proof (cases "is_function cb")
  case False
  then show ?thesis using assms by (simp add: on_def)
next
  case True
  show ?thesis
  proof (cases "subscribable self (prop_key event)")
    case s: True
    from on_subscribable [OF True s, of c] assms(2) show ?thesis by simp
  next
    case False
    then obtain len where "get_property self (prop_key event) = Some (NotArr len)"
      by (auto simp: subscribable_def split: option.splits js_property.splits)
    from on_not_array [OF True this, of c] assms show ?thesis
      by (auto simp: registry_ok_not_array split: if_splits)
  qed
qed

lemma registry_ok_off:
  assumes "registry_ok self" and "off self event cb c = Inr self'"
  shows "registry_ok self'"
  using off_returns_cases [OF assms(2)]
proof (elim disjE conjE exE)
  assume "self' = self\<lparr>events := Map.empty\<rparr>"
  then show ?thesis by (simp add: registry_ok_reset)
next
  fix len
  assume "self' = self"
  with assms(1) show ?thesis by simp
next
  fix xs
  let ?P = "\<lambda>s. \<not> ((cb = JUndefined \<and> c = JUndefined) \<or>
                     (strict_eq (callback s) cb \<and> (c = JUndefined \<or> strict_eq (ctx s) c)))"
  assume some: "events self (prop_key event) = Some (Arr xs)"
    and eq: "self' = self\<lparr>events := (events self)(prop_key event \<mapsto> Arr (filter ?P xs))\<rparr>"
  have "list_all stored_ok xs"
    using assms(1) some by (simp add: registry_ok_def)
  then have "list_all stored_ok (filter ?P xs)"
    by (simp add: list_all_iff)
  then show ?thesis
    using eq assms(1) by (simp add: registry_ok_array)
qed

lemma registry_ok_trigger:
  assumes "registry_ok self"
  shows "registry_ok (emitter_after (trigger self queue event))"
proof -
  have "emitter_after (trigger self queue event) = snd (ensure_entry self (prop_key event))"
    by (simp add: trigger_def emitter_after_def Let_def
             split: prod.split js_property.split option.split nat.split)
  then show ?thesis
    using registry_ok_ensure [OF assms] by simp
qed

lemma reachable_registry_ok: "reachable self \<Longrightarrow> registry_ok self"
proof (induction rule: reachable.induct)
  case reachable_new
  show ?case by (rule registry_ok_new)
next
  case (reachable_on self event cb c self')
  then show ?case by (blast intro: registry_ok_on)
next
  case (reachable_on_throws self event cb c err self')
  then show ?case by (blast intro: registry_ok_on_throws)
next
  case (reachable_off self event cb c self')
  then show ?case by (blast intro: registry_ok_off)
next
  case (reachable_off_throws self event cb c err self')
  then show ?case using off_throws_unchanged by blast
next
  case (reachable_trigger self queue event self')
  then show ?case using registry_ok_trigger by blast
qed

lemma filter_invocable:
  "list_all stored_ok xs \<Longrightarrow> filter (\<lambda>s. is_function (callback s)) xs = xs"
  by (induction xs) (auto simp: stored_ok_def)

lemma count_list_filter:
  "count_list (filter P xs) x = (if P x then count_list xs x else 0)"
  by (induction xs) auto

lemma stored_ctx_differs:
  assumes "stored_ok s" and "\<not> truthy c" and "c \<noteq> JNull"
  shows "\<not> strict_eq (ctx s) c"
  using assms by (auto simp: stored_ok_def strict_eq_def)

lemma strict_eq_function: "is_function f \<Longrightarrow> strict_eq f f"
  by (cases f) (simp_all add: strict_eq_def)

lemma filter_unmatched:
  "\<forall>s \<in> set xs. \<not> matches s \<Longrightarrow> filter (\<lambda>s. \<not> matches s) xs = xs"
  by (induction xs) auto

lemma reachable_subscribers_invocable:
  "reachable self \<Longrightarrow>
     filter (\<lambda>s. is_function (callback s)) (subscribers self k) = subscribers self k"
  by (simp add: reachable_registry_ok subscribers_ok filter_invocable)

lemma Object_prototype_ready [simp]:
  "Object_prototype ''ready'' = None" "Object_prototype ''done'' = None"
  "Object_prototype ''go'' = None" "Object_prototype ''neverSubscribed'' = None"
  "Object_prototype ''other'' = None"
  by (simp_all add: Object_prototype_def)

lemma Object_prototype_inherited [simp]:
  "Object_prototype ''constructor'' = Some (Some 1)"
  "Object_prototype ''toString'' = Some (Some 0)"
  by (simp_all add: Object_prototype_def)

section \<open>Properties of on\<close>

text \<open>
  C6. For every registry state, event name and value that is not a function, \<open>on\<close>
  stores nothing: it returns normally, and the emitter it returns is the one it was called
  on, so the registry, its set of keys included, is unchanged.
\<close>

theorem on_non_function_noop:
  "\<not> is_function v \<Longrightarrow> on self event v c = Inr self"
  by (simp add: on_def)

theorem on_non_function_noop_witness:
  "\<not> is_function (JStr ''handler'')
   \<and> on EventMixin (Some ''ready'') (JStr ''handler'') (JObj 1) = Inr EventMixin"
  using on_non_function_noop [of "JStr ''handler''" EventMixin "Some ''ready''" "JObj 1"] by simp

section \<open>Properties of off\<close>

text \<open>
  C4. For every registry, event whose own entry is an array and callback \<open>f\<close> (a value other
  than \<^verbatim>\<open>undefined\<close>, which is an omitted argument), \<open>off\<close> with no context returns and leaves
  under that event exactly the subscriptions whose callback is not \<^verbatim>\<open>===\<close> to \<open>f\<close>, in their
  order and whatever their contexts: every match is removed, also the members of a run of
  adjacent matches, and the entry of every other event is as it was.
\<close>

theorem off_callback_removes_every_match:
  assumes "events self (prop_key event) = Some (Arr xs)" and "f \<noteq> JUndefined"
  shows "\<exists>self'. off self event f JUndefined = Inr self'
           \<and> events self' (prop_key event) = Some (Arr (filter (\<lambda>s. \<not> strict_eq (callback s) f) xs))
           \<and> (\<forall>k. k \<noteq> prop_key event \<longrightarrow> events self' k = events self k)"
  using off_callback [OF assms] by simp

theorem off_callback_removes_every_match_witness:
  "\<exists>self'. off \<lparr>events = [''ready'' \<mapsto> Arr [\<lparr>callback = JFun 1, ctx = JObj 1\<rparr>,
                                              \<lparr>callback = JFun 1, ctx = JObj 2\<rparr>,
                                              \<lparr>callback = JFun 2, ctx = JNull\<rparr>,
                                              \<lparr>callback = JFun 1, ctx = JNull\<rparr>],
                             ''done'' \<mapsto> Arr [\<lparr>callback = JFun 1, ctx = JNull\<rparr>]]\<rparr>
                 (Some ''ready'') (JFun 1) JUndefined = Inr self'
           \<and> events self' ''ready'' = Some (Arr [\<lparr>callback = JFun 2, ctx = JNull\<rparr>])
           \<and> events self' ''done'' = Some (Arr [\<lparr>callback = JFun 1, ctx = JNull\<rparr>])"
  using off_callback_removes_every_match
          [of "\<lparr>events = [''ready'' \<mapsto> Arr [\<lparr>callback = JFun 1, ctx = JObj 1\<rparr>,
                                              \<lparr>callback = JFun 1, ctx = JObj 2\<rparr>,
                                              \<lparr>callback = JFun 2, ctx = JNull\<rparr>,
                                              \<lparr>callback = JFun 1, ctx = JNull\<rparr>],
                             ''done'' \<mapsto> Arr [\<lparr>callback = JFun 1, ctx = JNull\<rparr>]]\<rparr>"
              "Some ''ready''"
              "[\<lparr>callback = JFun 1, ctx = JObj 1\<rparr>, \<lparr>callback = JFun 1, ctx = JObj 2\<rparr>,
                \<lparr>callback = JFun 2, ctx = JNull\<rparr>, \<lparr>callback = JFun 1, ctx = JNull\<rparr>]"
              "JFun 1"]
  by (auto simp: prop_key_def strict_eq_def)

text \<open>
  C5. For every registry, event whose own entry is an array, callback \<open>f\<close> and context \<open>c\<close>
  (a value other than \<^verbatim>\<open>undefined\<close>), \<open>off\<close> returns and leaves under that event exactly
  the subscriptions that do not match both \<open>f\<close> and \<open>c\<close> by \<^verbatim>\<open>===\<close>; a subscription under
  the event with another context survives, whatever its callback, and the entry of every
  other event is as it was.
\<close>

theorem off_callback_context_removes_exact:
  assumes "events self (prop_key event) = Some (Arr xs)" and "c \<noteq> JUndefined"
  shows "\<exists>self'. off self event f c = Inr self'
           \<and> events self' (prop_key event) =
               Some (Arr (filter (\<lambda>s. \<not> (strict_eq (callback s) f \<and> strict_eq (ctx s) c)) xs))
           \<and> (\<forall>s \<in> set xs. \<not> strict_eq (ctx s) c \<longrightarrow> s \<in> set (subscribers self' (prop_key event)))
           \<and> (\<forall>k. k \<noteq> prop_key event \<longrightarrow> events self' k = events self k)"
  using off_callback_context [OF assms, of f] by (simp add: subscribers_def)

theorem off_callback_context_removes_exact_witness:
  "\<exists>self'. off \<lparr>events = [''ready'' \<mapsto> Arr [\<lparr>callback = JFun 1, ctx = JObj 1\<rparr>,
                                              \<lparr>callback = JFun 1, ctx = JObj 2\<rparr>],
                             ''done'' \<mapsto> Arr [\<lparr>callback = JFun 1, ctx = JObj 1\<rparr>]]\<rparr>
                 (Some ''ready'') (JFun 1) (JObj 1) = Inr self'
           \<and> events self' ''ready'' = Some (Arr [\<lparr>callback = JFun 1, ctx = JObj 2\<rparr>])
           \<and> events self' ''done'' = Some (Arr [\<lparr>callback = JFun 1, ctx = JObj 1\<rparr>])"
  using off_callback_context_removes_exact
          [of "\<lparr>events = [''ready'' \<mapsto> Arr [\<lparr>callback = JFun 1, ctx = JObj 1\<rparr>,
                                              \<lparr>callback = JFun 1, ctx = JObj 2\<rparr>],
                             ''done'' \<mapsto> Arr [\<lparr>callback = JFun 1, ctx = JObj 1\<rparr>]]\<rparr>"
              "Some ''ready''"
              "[\<lparr>callback = JFun 1, ctx = JObj 1\<rparr>, \<lparr>callback = JFun 1, ctx = JObj 2\<rparr>]"
              "JObj 1" "JFun 1"]
  by (auto simp: prop_key_def strict_eq_def)

section \<open>Properties of trigger\<close>

lemma subscribers_after_on:
  assumes "is_function f" and "on self event f c = Inr self1"
  shows "events self1 (prop_key event) =
           Some (Arr (subscribers self (prop_key event) @ [\<lparr>callback = f, ctx = js_or c JNull\<rparr>]))"
  using on_subscribable [OF assms(1) on_returns_subscribable [OF assms], of c] assms(2) by auto

lemma queue_after_trigger:
  "queue_after (trigger self queue event) =
     queue @ map (\<lambda>s. defer_bind (callback s) (ctx s))
               (filter (\<lambda>s. is_function (callback s)) (subscribers self (prop_key event)))"
proof (cases "get_property self (prop_key event)")
  case None
  then show ?thesis
    by (simp add: trigger_undefined queue_after_def subscribers_def get_property_undefined)
next
  case (Some p)
  show ?thesis
  proof (cases p)
    case (Arr xs)
    with Some have "events self (prop_key event) = Some (Arr xs)"
      by (simp add: get_property_array)
    then show ?thesis
      by (simp add: trigger_array queue_after_def subscribers_def)
  next
    case (NotArr len)
    with Some have na: "get_property self (prop_key event) = Some (NotArr len)" by simp
    then have "subscribers self (prop_key event) = []"
      by (auto simp: subscribers_def get_property_def split: option.splits js_property.splits)
    then show ?thesis
      by (simp add: trigger_not_array [OF na] queue_after_def split: option.split nat.split)
  qed
qed

text \<open>
  C2. For every registry that the methods produce and every event, \<open>trigger\<close> leaves the
  scheduler's queue with one more task for each subscription registered under the event,
  the callback bound to the recorded context, in the order of the sequence; where the event
  has its sequence \<open>s\<close>, it returns with these tasks submitted and the registry as it was.
  In particular, when the same callback and context have been registered twice under the
  event (two calls of \<open>on\<close> that returned), one \<open>trigger\<close> submits two such tasks, after
  those of the subscriptions that were there.
\<close>

theorem trigger_schedules_every_subscription:
  assumes "reachable self"
  shows "queue_after (trigger self queue event) =
           queue @ map (\<lambda>s. defer_bind (callback s) (ctx s)) (subscribers self (prop_key event))
       \<and> (events self (prop_key event) = Some (Arr s) \<longrightarrow>
            trigger self queue event =
              Inr (self, queue @ map (\<lambda>s. defer_bind (callback s) (ctx s)) s))
       \<and> (is_function f \<and> on self event f c = Inr self1 \<and> on self1 event f c = Inr self2 \<longrightarrow>
            trigger self2 queue event =
              Inr (self2,
                   queue @ map (\<lambda>s. defer_bind (callback s) (ctx s)) (subscribers self (prop_key event))
                     @ [defer_bind f (js_or c JNull), defer_bind f (js_or c JNull)]))"
proof (intro conjI impI)
  show "queue_after (trigger self queue event) =
           queue @ map (\<lambda>s. defer_bind (callback s) (ctx s)) (subscribers self (prop_key event))"
    using reachable_subscribers_invocable [OF assms] by (simp add: queue_after_trigger)
next
  assume own: "events self (prop_key event) = Some (Arr s)"
  then have "subscribers self (prop_key event) = s"
    by (simp add: subscribers_def)
  then have "filter (\<lambda>s. is_function (callback s)) s = s"
    using reachable_subscribers_invocable [OF assms, of "prop_key event"] by simp
  then show "trigger self queue event =
              Inr (self, queue @ map (\<lambda>s. defer_bind (callback s) (ctx s)) s)"
    by (simp add: trigger_array [OF own])
next
  assume a: "is_function f \<and> on self event f c = Inr self1 \<and> on self1 event f c = Inr self2"
  then have f: "is_function f" and s1: "on self event f c = Inr self1"
    and s2: "on self1 event f c = Inr self2" by simp_all
  let ?sub = "\<lparr>callback = f, ctx = js_or c JNull\<rparr>"
  have r2: "reachable self2"
    using assms s1 s2 by (blast intro: reachable_on)
  have e1: "subscribers self1 (prop_key event) = subscribers self (prop_key event) @ [?sub]"
    using subscribers_after_on [OF f s1] by (simp add: subscribers_def)
  have own2: "events self2 (prop_key event) =
                Some (Arr (subscribers self (prop_key event) @ [?sub, ?sub]))"
    using subscribers_after_on [OF f s2] e1 by simp
  then have "subscribers self2 (prop_key event) = subscribers self (prop_key event) @ [?sub, ?sub]"
    by (simp add: subscribers_def)
  then have "filter (\<lambda>s. is_function (callback s)) (subscribers self (prop_key event) @ [?sub, ?sub]) =
               subscribers self (prop_key event) @ [?sub, ?sub]"
    using reachable_subscribers_invocable [OF r2, of "prop_key event"] by simp
  then show "trigger self2 queue event =
              Inr (self2,
                   queue @ map (\<lambda>s. defer_bind (callback s) (ctx s)) (subscribers self (prop_key event))
                     @ [defer_bind f (js_or c JNull), defer_bind f (js_or c JNull)])"
    using trigger_array [OF own2, of queue] by simp
qed

theorem trigger_schedules_every_subscription_witness:
  "reachable EventMixin
   \<and> on EventMixin (Some ''ready'') (JFun 1) (JObj 7) =
       Inr \<lparr>events = [''ready'' \<mapsto> Arr [\<lparr>callback = JFun 1, ctx = JObj 7\<rparr>]]\<rparr>
   \<and> on \<lparr>events = [''ready'' \<mapsto> Arr [\<lparr>callback = JFun 1, ctx = JObj 7\<rparr>]]\<rparr>
        (Some ''ready'') (JFun 1) (JObj 7) =
       Inr \<lparr>events = [''ready'' \<mapsto> Arr [\<lparr>callback = JFun 1, ctx = JObj 7\<rparr>,
                                           \<lparr>callback = JFun 1, ctx = JObj 7\<rparr>]]\<rparr>
   \<and> trigger \<lparr>events = [''ready'' \<mapsto> Arr [\<lparr>callback = JFun 1, ctx = JObj 7\<rparr>,
                                               \<lparr>callback = JFun 1, ctx = JObj 7\<rparr>]]\<rparr>
        [] (Some ''ready'') =
       Inr (\<lparr>events = [''ready'' \<mapsto> Arr [\<lparr>callback = JFun 1, ctx = JObj 7\<rparr>,
                                            \<lparr>callback = JFun 1, ctx = JObj 7\<rparr>]]\<rparr>,
            [Bound (JFun 1) (JObj 7), Bound (JFun 1) (JObj 7)])"
proof -
  let ?sub = "\<lparr>callback = JFun 1, ctx = JObj 7\<rparr>"
  have none: "subscribers EventMixin ''ready'' = []"
    by (simp add: subscribers_def EventMixin_def)
  have on1: "on EventMixin (Some ''ready'') (JFun 1) (JObj 7) =
               Inr \<lparr>events = [''ready'' \<mapsto> Arr [?sub]]\<rparr>"
    by (simp add: on_undefined get_property_undefined EventMixin_def prop_key_def js_or_def)
  have on2: "on \<lparr>events = [''ready'' \<mapsto> Arr [?sub]]\<rparr> (Some ''ready'') (JFun 1) (JObj 7) =
               Inr \<lparr>events = [''ready'' \<mapsto> Arr [?sub, ?sub]]\<rparr>"
    by (simp add: on_array [where xs = "[?sub]"] prop_key_def js_or_def)
  show ?thesis
    using trigger_schedules_every_subscription
            [OF reachable_new, of "[]" "Some ''ready''" "[]" "JFun 1" "JObj 7"
               "\<lparr>events = [''ready'' \<mapsto> Arr [?sub]]\<rparr>"
               "\<lparr>events = [''ready'' \<mapsto> Arr [?sub, ?sub]]\<rparr>"]
          on1 on2
    by (simp add: reachable_new none prop_key_def js_or_def defer_bind_def)
qed








section \<open>off on an event that was never subscribed\<close>

text \<open>
  C1. On a new emitter the event \<^verbatim>\<open>"ready"\<close> has no entry, and each of the three forms of
  \<open>off\<close> that name it throws a TypeError instead of returning the emitter unchanged:
  \<^verbatim>\<open>this.events[event]\<close> is \<^verbatim>\<open>undefined\<close> and its \<^verbatim>\<open>splice\<close> or \<^verbatim>\<open>length\<close> is read. \<open>on\<close> and
  \<open>trigger\<close> create the missing entry before they use it; \<open>off\<close> does not.
\<close>

theorem off_never_subscribed_throws:
  "off EventMixin (Some ''ready'') JUndefined JUndefined = Inl (TypeError, EventMixin)
   \<and> off EventMixin (Some ''ready'') (JFun 1) JUndefined = Inl (TypeError, EventMixin)
   \<and> off EventMixin (Some ''ready'') (JFun 1) (JObj 1) = Inl (TypeError, EventMixin)"
  by (simp add: off_missing get_property_undefined EventMixin_def prop_key_def)

text \<open>
  C7. Whenever a call of \<open>off\<close> returns, a second call with the same arguments returns the
  same emitter (\<open>off_twice_same\<close>). It is not so for every argument tuple: after
  \<^verbatim>\<open>on("ready", f)\<close> the event \<^verbatim>\<open>"done"\<close> has no entry, and \<^verbatim>\<open>off("done", f)\<close> throws a TypeError,
  the first time and, the registry being what it was, the second time.
\<close>

theorem off_twice_throws:
  "on EventMixin (Some ''ready'') (JFun 1) JUndefined =
     Inr \<lparr>events = [''ready'' \<mapsto> Arr [\<lparr>callback = JFun 1, ctx = JNull\<rparr>]]\<rparr>
   \<and> off \<lparr>events = [''ready'' \<mapsto> Arr [\<lparr>callback = JFun 1, ctx = JNull\<rparr>]]\<rparr>
        (Some ''done'') (JFun 1) JUndefined =
       Inl (TypeError, \<lparr>events = [''ready'' \<mapsto> Arr [\<lparr>callback = JFun 1, ctx = JNull\<rparr>]]\<rparr>)"
  by (simp add: on_undefined off_missing get_property_undefined EventMixin_def prop_key_def js_or_def)

section \<open>Selection of the scheduler\<close>

text \<open>After a call of the exported function, a message to the handler calls the oldest task.\<close>

lemma handle_calls_oldest:
  "handle True (loop_after (defer_call h PostMessage fn
      \<lparr>ticks = [], posted = 0, pending = [], timers = [], called = []\<rparr>)) =
     \<lparr>ticks = [], posted = 1, pending = [], timers = [], called = [fn]\<rparr>"
  by (simp add: handle_def defer_call_def loop_after_def)

text \<open>
  C8. When the host has no \<^verbatim>\<open>process.nextTick\<close> and no \<^verbatim>\<open>window\<close>, loading the module throws
  the error \<^verbatim>\<open>Unsupported environment for async events.\<close> and exports no function. With a
  window and no \<^verbatim>\<open>postMessage\<close> it throws nothing and exports the wrapper of \<^verbatim>\<open>setTimeout\<close>,
  whether the host has \<^verbatim>\<open>setTimeout\<close> or not; without it, each call of the wrapper is a
  ReferenceError. Whatever function is exported, a call of it calls no task: the tasks
  that have been called are the same after the call as before.
\<close>

theorem defer_select_unsupported:
  "(\<not> (process_defined h \<and> process_nextTick h) \<and> \<not> window_defined h \<longrightarrow>
      defer_select h = Inl (JsError ''Unsupported environment for async events.''))
   \<and> (\<not> (process_defined h \<and> process_nextTick h) \<and> window_defined h \<and> \<not> window_postMessage h \<longrightarrow>
        defer_select h = Inr Timeout)
   \<and> (defer_select h = Inr s \<longrightarrow> called (loop_after (defer_call h s fn loop)) = called loop)
   \<and> (\<not> setTimeout_defined h \<longrightarrow> defer_call h Timeout fn loop = Inl (ReferenceError, loop))"
  by (auto simp: defer_select_def defer_call_def loop_after_def split: scheduler.splits)

theorem defer_select_unsupported_witness:
  "defer_select \<lparr>process_defined = False, process_nextTick = False, window_defined = False,
                 window_postMessage = False, window_addEventListener = False,
                 window_attachEvent = False, setTimeout_defined = False\<rparr>
     = Inl (JsError ''Unsupported environment for async events.'')
   \<and> defer_select \<lparr>process_defined = True, process_nextTick = True, window_defined = False,
                 window_postMessage = False, window_addEventListener = False,
                 window_attachEvent = False, setTimeout_defined = True\<rparr> = Inr NextTick
   \<and> called (loop_after (defer_call
        \<lparr>process_defined = True, process_nextTick = True, window_defined = False,
         window_postMessage = False, window_addEventListener = False,
         window_attachEvent = False, setTimeout_defined = True\<rparr>
        NextTick (Bound (JFun 1) JNull)
        \<lparr>ticks = [], posted = 0, pending = [], timers = [], called = []\<rparr>)) = []"
proof -
  have sel: "defer_select \<lparr>process_defined = True, process_nextTick = True, window_defined = False,
                 window_postMessage = False, window_addEventListener = False,
                 window_attachEvent = False, setTimeout_defined = True\<rparr> = Inr NextTick"
    by (simp add: defer_select_def)
  show ?thesis
    using defer_select_unsupported
            [of "\<lparr>process_defined = False, process_nextTick = False, window_defined = False,
                   window_postMessage = False, window_addEventListener = False,
                   window_attachEvent = False, setTimeout_defined = False\<rparr>"]
          defer_select_unsupported
            [of "\<lparr>process_defined = True, process_nextTick = True, window_defined = False,
                   window_postMessage = False, window_addEventListener = False,
                   window_attachEvent = False, setTimeout_defined = True\<rparr>"
                NextTick "Bound (JFun 1) JNull"
                "\<lparr>ticks = [], posted = 0, pending = [], timers = [], called = []\<rparr>"]
          sel
    by simp
qed

text \<open>
  A host with a window that has neither \<^verbatim>\<open>postMessage\<close> nor \<^verbatim>\<open>setTimeout\<close> offers no
  asynchronous mechanism, and loading the module there throws nothing.
\<close>

theorem defer_select_unsupported_counterexample:
  "no_async_mechanism \<lparr>process_defined = False, process_nextTick = False, window_defined = True,
                       window_postMessage = False, window_addEventListener = False,
                       window_attachEvent = False, setTimeout_defined = False\<rparr>
   \<and> defer_select \<lparr>process_defined = False, process_nextTick = False, window_defined = True,
                   window_postMessage = False, window_addEventListener = False,
                   window_attachEvent = False, setTimeout_defined = False\<rparr> = Inr Timeout"
  by (simp add: no_async_mechanism_def defer_select_def)

section \<open>Falsy contexts\<close>

text \<open>
  C9. For every function \<open>f\<close>, every falsy context argument and every event under which
  \<open>on\<close> can register (its name holds an array or reads \<^verbatim>\<open>undefined\<close>), \<open>on\<close> appends the
  subscription with the context \<^verbatim>\<open>null\<close>. A later \<open>off\<close> of the same event and callback with
  a context \<open>c\<close> that is that falsy value, neither \<^verbatim>\<open>null\<close> nor \<^verbatim>\<open>undefined\<close>, removes none of
  the subscriptions of \<open>f\<close> with context \<^verbatim>\<open>null\<close>, and removes nothing at all from a registry
  that the methods produced. \<open>off\<close> with the context \<^verbatim>\<open>null\<close> removes the subscription, and so
  does \<open>off\<close> with the context \<^verbatim>\<open>undefined\<close>, which is the removal by callback alone.
\<close>

theorem on_falsy_context_is_null:
  assumes "is_function f" and "\<not> truthy c" and "subscribable self (prop_key event)"
  shows "\<exists>self1. on self event f c = Inr self1
           \<and> events self1 (prop_key event) =
               Some (Arr (subscribers self (prop_key event) @ [\<lparr>callback = f, ctx = JNull\<rparr>]))
           \<and> (c \<noteq> JNull \<and> c \<noteq> JUndefined \<longrightarrow>
                (\<exists>self2. off self1 event f c = Inr self2
                   \<and> count_list (subscribers self2 (prop_key event)) \<lparr>callback = f, ctx = JNull\<rparr> =
                       count_list (subscribers self1 (prop_key event)) \<lparr>callback = f, ctx = JNull\<rparr>)
                \<and> (reachable self \<longrightarrow> off self1 event f c = Inr self1))
           \<and> (\<exists>self3. off self1 event f JNull = Inr self3
                  \<and> \<lparr>callback = f, ctx = JNull\<rparr> \<notin> set (subscribers self3 (prop_key event)))
           \<and> (\<exists>self4. off self1 event f JUndefined = Inr self4
                  \<and> \<lparr>callback = f, ctx = JNull\<rparr> \<notin> set (subscribers self4 (prop_key event)))"
proof -
  let ?k = "prop_key event"
  let ?sub = "\<lparr>callback = f, ctx = JNull\<rparr>"
  let ?xs1 = "subscribers self ?k @ [?sub]"
  define self1 where "self1 = self\<lparr>events := (events self)(?k \<mapsto> Arr ?xs1)\<rparr>"
  have on1: "on self event f c = Inr self1"
    using on_subscribable [OF assms(1) assms(3), of c] assms(2) by (simp add: self1_def js_or_def)
  have ev1: "events self1 ?k = Some (Arr ?xs1)"
    by (simp add: self1_def)
  have subs1: "subscribers self1 ?k = ?xs1"
    using ev1 by (simp add: subscribers_def)
  have ff: "strict_eq f f"
    using assms(1) by (rule strict_eq_function)
  have nu: "f \<noteq> JUndefined"
    using assms(1) by auto
  have part2: "(\<exists>self2. off self1 event f c = Inr self2
                   \<and> count_list (subscribers self2 ?k) ?sub = count_list (subscribers self1 ?k) ?sub)
                \<and> (reachable self \<longrightarrow> off self1 event f c = Inr self1)"
    if c: "c \<noteq> JNull \<and> c \<noteq> JUndefined"
  proof (intro conjI impI)
    let ?P = "\<lambda>s. \<not> (strict_eq (callback s) f \<and> strict_eq (ctx s) c)"
    have off2: "off self1 event f c = Inr (self1\<lparr>events := (events self1)(?k \<mapsto> Arr (filter ?P ?xs1))\<rparr>)"
      using off_callback_context [OF ev1, of c f] c by simp
    have keep: "?P ?sub"
      using c by (auto simp: strict_eq_def)
    show "\<exists>self2. off self1 event f c = Inr self2
            \<and> count_list (subscribers self2 ?k) ?sub = count_list (subscribers self1 ?k) ?sub"
      using off2 keep by (simp add: subscribers_def count_list_filter ev1)
    assume "reachable self"
    then have "reachable self1"
      using on1 by (rule reachable_on)
    then have "list_all stored_ok ?xs1"
      using subscribers_ok [OF reachable_registry_ok, of self1 ?k] subs1 by simp
    moreover have "\<not> strict_eq (ctx s) c" if "stored_ok s" for s
      using that assms(2) c by (simp add: stored_ctx_differs)
    ultimately have "\<forall>s \<in> set ?xs1. \<not> (strict_eq (callback s) f \<and> strict_eq (ctx s) c)"
      unfolding list_all_iff by blast
    then have "filter ?P ?xs1 = ?xs1"
      by (rule filter_unmatched)
    then show "off self1 event f c = Inr self1"
      using off2 ev1 by (simp add: map_upd_triv)
  qed
  have part3: "\<exists>self3. off self1 event f JNull = Inr self3
                  \<and> ?sub \<notin> set (subscribers self3 ?k)"
  proof -
    let ?P = "\<lambda>s. \<not> (strict_eq (callback s) f \<and> strict_eq (ctx s) JNull)"
    have "off self1 event f JNull = Inr (self1\<lparr>events := (events self1)(?k \<mapsto> Arr (filter ?P ?xs1))\<rparr>)"
      using off_callback_context [OF ev1, of JNull f] by simp
    moreover have "\<not> ?P ?sub"
      using ff by (simp add: strict_eq_def)
    ultimately show ?thesis
      by (auto simp: subscribers_def)
  qed
  have part4: "\<exists>self4. off self1 event f JUndefined = Inr self4
                  \<and> ?sub \<notin> set (subscribers self4 ?k)"
  proof -
    let ?P = "\<lambda>s. \<not> strict_eq (callback s) f"
    have "off self1 event f JUndefined = Inr (self1\<lparr>events := (events self1)(?k \<mapsto> Arr (filter ?P ?xs1))\<rparr>)"
      using off_callback [OF ev1 nu] by simp
    moreover have "\<not> ?P ?sub"
      using ff by simp
    ultimately show ?thesis
      by (auto simp: subscribers_def)
  qed
  show ?thesis
    using on1 ev1 part2 part3 part4 by blast
qed

theorem on_falsy_context_is_null_witness:
  "is_function (JFun 1) \<and> \<not> truthy (JNum 0) \<and> subscribable EventMixin (prop_key (Some ''ready''))
   \<and> on EventMixin (Some ''ready'') (JFun 1) (JNum 0) =
        Inr \<lparr>events = [''ready'' \<mapsto> Arr [\<lparr>callback = JFun 1, ctx = JNull\<rparr>]]\<rparr>
   \<and> off \<lparr>events = [''ready'' \<mapsto> Arr [\<lparr>callback = JFun 1, ctx = JNull\<rparr>]]\<rparr> (Some ''ready'') (JFun 1) (JNum 0) =
        Inr \<lparr>events = [''ready'' \<mapsto> Arr [\<lparr>callback = JFun 1, ctx = JNull\<rparr>]]\<rparr>
   \<and> off \<lparr>events = [''ready'' \<mapsto> Arr [\<lparr>callback = JFun 1, ctx = JNull\<rparr>]]\<rparr> (Some ''ready'') (JFun 1) JNull =
        Inr \<lparr>events = [''ready'' \<mapsto> Arr []]\<rparr>"
proof -
  have sub: "subscribable EventMixin (prop_key (Some ''ready''))"
    by (simp add: subscribable_def get_property_def EventMixin_def prop_key_def)
  have on1: "on EventMixin (Some ''ready'') (JFun 1) (JNum 0) =
        Inr \<lparr>events = [''ready'' \<mapsto> Arr [\<lparr>callback = JFun 1, ctx = JNull\<rparr>]]\<rparr>"
    by (simp add: on_undefined get_property_undefined EventMixin_def prop_key_def js_or_def)
  have off3: "off \<lparr>events = [''ready'' \<mapsto> Arr [\<lparr>callback = JFun 1, ctx = JNull\<rparr>]]\<rparr> (Some ''ready'') (JFun 1) JNull =
        Inr \<lparr>events = [''ready'' \<mapsto> Arr []]\<rparr>"
    by (simp add: off_callback_context [where xs = "[\<lparr>callback = JFun 1, ctx = JNull\<rparr>]"] prop_key_def strict_eq_def)
  show ?thesis
    using on_falsy_context_is_null [OF _ _ sub, of "JFun 1" "JNum 0"] on1 off3 sub
    by (simp add: reachable_new)
qed

text \<open>
  Not so at a name that every object inherits, nor for the falsy value \<^verbatim>\<open>undefined\<close>: on a new
  emitter \<^verbatim>\<open>on("constructor", f, 0)\<close> throws a TypeError with no subscription stored, and
  after \<^verbatim>\<open>on("ready", f, undefined)\<close> the call \<^verbatim>\<open>off("ready", f, undefined)\<close> removes the
  subscription.
\<close>

theorem on_falsy_context_is_null_counterexample:
  "is_function (JFun 1) \<and> \<not> truthy (JNum 0) \<and> \<not> truthy JUndefined \<and> JUndefined \<noteq> JNull
   \<and> on EventMixin (Some ''constructor'') (JFun 1) (JNum 0) =
        Inl (TypeError, \<lparr>events = [''constructor'' \<mapsto> NotArr (Some 1)]\<rparr>)
   \<and> on EventMixin (Some ''ready'') (JFun 1) JUndefined =
        Inr \<lparr>events = [''ready'' \<mapsto> Arr [\<lparr>callback = JFun 1, ctx = JNull\<rparr>]]\<rparr>
   \<and> off \<lparr>events = [''ready'' \<mapsto> Arr [\<lparr>callback = JFun 1, ctx = JNull\<rparr>]]\<rparr>
        (Some ''ready'') (JFun 1) JUndefined =
        Inr \<lparr>events = [''ready'' \<mapsto> Arr []]\<rparr>"
proof -
  have "get_property EventMixin (prop_key (Some ''constructor'')) = Some (NotArr (Some 1))"
    by (simp add: get_property_def EventMixin_def prop_key_def)
  from on_not_array [OF _ this, of "JFun 1" "JNum 0"]
  have a: "on EventMixin (Some ''constructor'') (JFun 1) (JNum 0) =
        Inl (TypeError, \<lparr>events = [''constructor'' \<mapsto> NotArr (Some 1)]\<rparr>)"
    by (simp add: EventMixin_def prop_key_def)
  have b: "on EventMixin (Some ''ready'') (JFun 1) JUndefined =
        Inr \<lparr>events = [''ready'' \<mapsto> Arr [\<lparr>callback = JFun 1, ctx = JNull\<rparr>]]\<rparr>"
    by (simp add: on_undefined get_property_undefined EventMixin_def prop_key_def js_or_def)
  have c: "off \<lparr>events = [''ready'' \<mapsto> Arr [\<lparr>callback = JFun 1, ctx = JNull\<rparr>]]\<rparr>
        (Some ''ready'') (JFun 1) JUndefined =
        Inr \<lparr>events = [''ready'' \<mapsto> Arr []]\<rparr>"
    by (simp add: off_callback [where xs = "[\<lparr>callback = JFun 1, ctx = JNull\<rparr>]"] prop_key_def strict_eq_def)
  show ?thesis using a b c by simp
qed

end
